theory Spec2Isabelle
  imports Main "HOL-Library.Word" "HOL-Library.Sublist"
begin

section \<open>JavaScript strings\<close>

text \<open>
  A JavaScript string is a sequence of UTF-16 code units, and a regular expression
  without the \<open>u\<close> flag matches code unit by code unit. A code unit is a 16-bit word;
  \<open>str\<close> reads an ASCII literal as such a string.
\<close>

type_synonym jschar = "16 word"
type_synonym jsstring = "jschar list"

definition CH :: "char \<Rightarrow> jschar" where
  "CH c = of_nat (of_char c)"

definition str :: "string \<Rightarrow> jsstring" where
  "str cs = map CH cs"

subsection \<open>Character classes of the regular expressions\<close>

text \<open>LineTerminator: LF, CR, U+2028, U+2029. The class \<open>.\<close> is its complement.\<close>

definition is_line_terminator :: "jschar \<Rightarrow> bool" where
  "is_line_terminator c \<longleftrightarrow> c = 0x0A \<or> c = 0x0D \<or> c = 0x2028 \<or> c = 0x2029"

definition is_dot :: "jschar \<Rightarrow> bool" where
  "is_dot c \<longleftrightarrow> \<not> is_line_terminator c"

text \<open>\<open>\w\<close> is \<open>[A-Za-z0-9_]\<close> and \<open>\d\<close> is \<open>[0-9]\<close>.\<close>

definition is_word_char :: "jschar \<Rightarrow> bool" where
  "is_word_char c \<longleftrightarrow>
     (0x41 \<le> c \<and> c \<le> 0x5A) \<or> (0x61 \<le> c \<and> c \<le> 0x7A) \<or> (0x30 \<le> c \<and> c \<le> 0x39) \<or> c = 0x5F"

definition is_digit :: "jschar \<Rightarrow> bool" where
  "is_digit c \<longleftrightarrow> 0x30 \<le> c \<and> c \<le> 0x39"

text \<open>
  What \<open>String.prototype.trim\<close> strips: WhiteSpace (TAB, VT, FF, SP, NBSP, ZWNBSP and
  the category Zs) and LineTerminator.
\<close>

definition is_white_space :: "jschar \<Rightarrow> bool" where
  "is_white_space c \<longleftrightarrow>
     c = 0x09 \<or> c = 0x0B \<or> c = 0x0C \<or> c = 0x20 \<or> c = 0xA0 \<or> c = 0x1680 \<or>
     (0x2000 \<le> c \<and> c \<le> 0x200A) \<or> c = 0x202F \<or> c = 0x205F \<or> c = 0x3000 \<or>
     c = 0xFEFF \<or> is_line_terminator c"

definition trim :: "jsstring \<Rightarrow> jsstring" where
  "trim s = rev (dropWhile is_white_space (rev (dropWhile is_white_space s)))"

text \<open>\<open>^\<close> with the \<open>m\<close> flag: at the start of the input or just after a LineTerminator.
  The argument is the code unit before the position, if there is one.\<close>

definition at_line_start :: "jschar option \<Rightarrow> bool" where
  "at_line_start prev = (case prev of None \<Rightarrow> True | Some c \<Rightarrow> is_line_terminator c)"

section \<open>\<open>String.prototype.replace\<close> with a global regular expression\<close>

text \<open>
  A matcher stands for one regular expression with its replacement: given the code unit
  before the current position and the input from the current position on, it returns
  the replacement text and the length of the match that the backtracking matcher finds
  at this position, or \<open>None\<close> when the expression does not match here.

  \<open>replace_g\<close> is the loop of \<open>replace\<close> for a \<open>/g\<close> expression: it tries the
  positions from left to right, copies the code units where nothing matches, and after
  a match goes on behind it (one code unit further when the match is empty).
\<close>

type_synonym matcher = "jschar option \<Rightarrow> jsstring \<Rightarrow> (jsstring \<times> nat) option"

function replace_g :: "matcher \<Rightarrow> jschar option \<Rightarrow> jsstring \<Rightarrow> jsstring" where
  "replace_g m prev [] = (case m prev [] of None \<Rightarrow> [] | Some (r, n) \<Rightarrow> r)"
| "replace_g m prev (c # s) =
     (case m prev (c # s) of
        None \<Rightarrow> c # replace_g m (Some c) s
      | Some (r, n) \<Rightarrow>
          if n = 0 then r @ c # replace_g m (Some c) s
          else r @ replace_g m (Some (last (take n (c # s)))) (drop n (c # s)))"
  by pat_completeness auto
termination
  by (relation "measure (\<lambda>(m, prev, s). length s)") auto

declare replace_g.simps [simp del]

definition replace :: "matcher \<Rightarrow> jsstring \<Rightarrow> jsstring" where
  "replace m s = replace_g m None s"

subsection \<open>The matchers of \<open>renderMarkdown\<close>\<close>

text \<open>A literal pattern: \<open>/&/g\<close>, \<open>/</g\<close>, \<open>/>/g\<close>, \<open>/\n\n/g\<close>, \<open>/\n/g\<close>.\<close>

definition match_lit :: "jsstring \<Rightarrow> jsstring \<Rightarrow> matcher" where
  "match_lit pat r prev s = (if prefix pat s then Some (r, length pat) else None)"

text \<open>
  The lazy \<open>[\s\S]*?\<close> before a literal: the least number of code units to skip so that
  the literal follows. \<open>lazy_dot\<close> is the same for \<open>.*?\<close>, which cannot skip a
  LineTerminator.
\<close>

fun lazy_any :: "jsstring \<Rightarrow> jsstring \<Rightarrow> nat option" where
  "lazy_any pat [] = (if pat = [] then Some 0 else None)"
| "lazy_any pat (c # s) =
     (if prefix pat (c # s) then Some 0 else map_option Suc (lazy_any pat s))"

fun lazy_dot :: "jsstring \<Rightarrow> jsstring \<Rightarrow> nat option" where
  "lazy_dot pat [] = (if pat = [] then Some 0 else None)"
| "lazy_dot pat (c # s) =
     (if prefix pat (c # s) then Some 0
      else if is_line_terminator c then None
      else map_option Suc (lazy_dot pat s))"

text \<open>
  The greedy \<open>.*\<close> before a literal: the matcher first lets \<open>.*\<close> take one more code
  unit and only when that fails tries the literal at the current position, so the result
  is the greatest number of code units of the line to skip so that the literal follows.
\<close>

fun greedy_dot :: "jsstring \<Rightarrow> jsstring \<Rightarrow> nat option" where
  "greedy_dot pat [] = (if pat = [] then Some 0 else None)"
| "greedy_dot pat (c # s) =
     (if is_line_terminator c then (if prefix pat (c # s) then Some 0 else None)
      else (case greedy_dot pat s of
              Some k \<Rightarrow> Some (Suc k)
            | None \<Rightarrow> if prefix pat (c # s) then Some 0 else None))"

text \<open>\<open>/```(\w*)\n([\s\S]*?)```/g\<close> with the replacement function of the source.\<close>

definition code_block :: "jsstring \<Rightarrow> jsstring \<Rightarrow> jsstring" where
  \<open>code_block lang code =
     str ''<pre><code class="language-'' @ lang @ str ''">'' @ trim code @ str ''</code></pre>''\<close>

definition match_fence :: matcher where
  "match_fence prev s =
     (if prefix (str ''```'') s then
        let s1 = drop 3 s;
            lang = takeWhile is_word_char s1;
            s2 = dropWhile is_word_char s1
        in (case s2 of
              [] \<Rightarrow> None
            | c # s3 \<Rightarrow>
                if c = 0x0A then
                  (case lazy_any (str ''```'') s3 of
                     None \<Rightarrow> None
                   | Some k \<Rightarrow> Some (code_block lang (take k s3), 3 + length lang + 1 + k + 3))
                else None)
      else None)"

text \<open>\<open>/`([^`]+)`/g\<close> with \<open><code>$1</code>\<close>.\<close>

definition match_inline_code :: matcher where
  "match_inline_code prev s =
     (case s of
        [] \<Rightarrow> None
      | c # s1 \<Rightarrow>
          if c = CH CHR ''`'' then
            let code = takeWhile (\<lambda>x. x \<noteq> CH CHR ''`'') s1 in
            if code \<noteq> [] \<and> prefix (str ''`'') (dropWhile (\<lambda>x. x \<noteq> CH CHR ''`'') s1)
            then Some (str ''<code>'' @ code @ str ''</code>'', 1 + length code + 1)
            else None
          else None)"

text \<open>\<open>/\*\*(.+?)\*\*/g\<close> with \<open><strong>$1</strong>\<close> and \<open>/\*(.+?)\*/g\<close> with
  \<open><em>$1</em>\<close>: the delimiter, one code unit of the line, then the lazy \<open>.*?\<close> up to the
  delimiter.\<close>

definition match_delimited :: "jsstring \<Rightarrow> jsstring \<Rightarrow> jsstring \<Rightarrow> matcher" where
  "match_delimited d topen tclose prev s =
     (if prefix d s then
        (case drop (length d) s of
           [] \<Rightarrow> None
         | c # s1 \<Rightarrow>
             if is_line_terminator c then None
             else (case lazy_dot d s1 of
                     None \<Rightarrow> None
                   | Some k \<Rightarrow>
                       Some (topen @ take (Suc k) (c # s1) @ tclose,
                             length d + Suc k + length d)))
      else None)"

definition match_bold :: matcher where
  "match_bold = match_delimited (str ''**'') (str ''<strong>'') (str ''</strong>'')"

definition match_italic :: matcher where
  "match_italic = match_delimited (str ''*'') (str ''<em>'') (str ''</em>'')"

text \<open>
  \<open>/^MARK(.+)$/gm\<close> with \<open><tag>$1</tag>\<close>, for the headings, the list items and the
  block quote: at a line start, the marker, then the greedy \<open>.+\<close>, which takes the rest
  of the line, so that \<open>$\<close> holds behind it.
\<close>

definition match_line :: "jsstring \<Rightarrow> jsstring \<Rightarrow> jsstring \<Rightarrow> matcher" where
  "match_line mark topen tclose prev s =
     (if at_line_start prev \<and> prefix mark s then
        let body = takeWhile is_dot (drop (length mark) s) in
        if body \<noteq> [] then Some (topen @ body @ tclose, length mark + length body)
        else None
      else None)"

definition match_h3 :: matcher where
  "match_h3 = match_line (str ''### '') (str ''<h3>'') (str ''</h3>'')"

definition match_h2 :: matcher where
  "match_h2 = match_line (str ''## '') (str ''<h2>'') (str ''</h2>'')"

definition match_h1 :: matcher where
  "match_h1 = match_line (str ''# '') (str ''<h1>'') (str ''</h1>'')"

definition match_li :: matcher where
  "match_li = match_line (str ''- '') (str ''<li>'') (str ''</li>'')"

definition match_blockquote :: matcher where
  "match_blockquote = match_line (str ''> '') (str ''<blockquote>'') (str ''</blockquote>'')"

text \<open>\<open>/\[([^\]]+)\]\(([^)]+)\)/g\<close> with
  \<open><a href="$2" target="_blank" rel="noopener">$1</a>\<close>.\<close>

definition anchor :: "jsstring \<Rightarrow> jsstring \<Rightarrow> jsstring" where
  \<open>anchor label url =
     str ''<a href="'' @ url @ str ''" target="_blank" rel="noopener">'' @ label @ str ''</a>''\<close>

definition match_link :: matcher where
  "match_link prev s =
     (case s of
        [] \<Rightarrow> None
      | c # s1 \<Rightarrow>
          if c = CH CHR ''['' then
            let label = takeWhile (\<lambda>x. x \<noteq> CH CHR '']'') s1;
                s2 = dropWhile (\<lambda>x. x \<noteq> CH CHR '']'') s1
            in if label \<noteq> [] \<and> prefix (str ''](''  ) s2 then
                 let s3 = drop 2 s2;
                     url = takeWhile (\<lambda>x. x \<noteq> CH CHR '')'') s3
                 in if url \<noteq> [] \<and> prefix (str '')'') (dropWhile (\<lambda>x. x \<noteq> CH CHR '')'') s3)
                    then Some (anchor label url, 1 + length label + 2 + length url + 1)
                    else None
               else None
          else None)"

text \<open>
  \<open>/(<li>.*<\/li>\n?)+/g\<close> with \<open><ul>$&</ul>\<close>. \<open>li_item\<close> is one round of the group:
  its length, when the group matches at the start of the input. \<open>li_run\<close> is the
  length of the rounds that the greedy \<open>+\<close> takes after the first one: nothing follows
  the group in the expression, so the matcher stops at the first round that fails.
\<close>

definition li_item :: "jsstring \<Rightarrow> nat option" where
  "li_item s =
     (if prefix (str ''<li>'') s then
        (case greedy_dot (str ''</li>'') (drop 4 s) of
           None \<Rightarrow> None
         | Some k \<Rightarrow>
             if prefix [0x0A] (drop (4 + k + 5) s) then Some (4 + k + 5 + 1)
             else Some (4 + k + 5))
      else None)"

function li_run :: "jsstring \<Rightarrow> nat" where
  "li_run s =
     (case li_item s of
        None \<Rightarrow> 0
      | Some n \<Rightarrow> n + li_run (drop n s))"
  by pat_completeness auto
termination
  by (relation "measure length")
     (auto simp: li_item_def str_def prefix_def split: if_splits option.splits)

declare li_run.simps [simp del]

definition match_ul :: matcher where
  "match_ul prev s =
     (case li_item s of
        None \<Rightarrow> None
      | Some n \<Rightarrow>
          let total = n + li_run (drop n s) in
          Some (str ''<ul>'' @ take total s @ str ''</ul>'', total))"

text \<open>\<open>/^\d+\. (.+)$/gm\<close> with \<open><li>$1</li>\<close>.\<close>

definition match_ol :: matcher where
  "match_ol prev s =
     (if at_line_start prev then
        let digits = takeWhile is_digit s;
            s1 = dropWhile is_digit s
        in if digits \<noteq> [] \<and> prefix (str ''. '') s1 then
             let body = takeWhile is_dot (drop 2 s1) in
             if body \<noteq> [] then
               Some (str ''<li>'' @ body @ str ''</li>'', length digits + 2 + length body)
             else None
           else None
      else None)"

section \<open>\<open>renderMarkdown\<close>\<close>

definition escape_html :: "jsstring \<Rightarrow> jsstring" where
  "escape_html text =
     replace (match_lit (str ''>'') (str ''&gt;''))
       (replace (match_lit (str ''<'') (str ''&lt;''))
         (replace (match_lit (str ''&'') (str ''&amp;'')) text))"

definition code_blocks :: "jsstring \<Rightarrow> jsstring" where
  "code_blocks = replace match_fence"

definition inline_code :: "jsstring \<Rightarrow> jsstring" where
  "inline_code = replace match_inline_code"

definition bold :: "jsstring \<Rightarrow> jsstring" where
  "bold = replace match_bold"

definition italic :: "jsstring \<Rightarrow> jsstring" where
  "italic = replace match_italic"

definition headings :: "jsstring \<Rightarrow> jsstring" where
  "headings html = replace match_h1 (replace match_h2 (replace match_h3 html))"

definition links :: "jsstring \<Rightarrow> jsstring" where
  "links = replace match_link"

definition unordered_lists :: "jsstring \<Rightarrow> jsstring" where
  "unordered_lists html = replace match_ul (replace match_li html)"

definition ordered_lists :: "jsstring \<Rightarrow> jsstring" where
  "ordered_lists = replace match_ol"

definition blockquotes :: "jsstring \<Rightarrow> jsstring" where
  "blockquotes = replace match_blockquote"

definition line_breaks :: "jsstring \<Rightarrow> jsstring" where
  "line_breaks html =
     replace (match_lit [0x0A] (str ''<br>''))
       (replace (match_lit [0x0A, 0x0A] (str ''</p><p>'')) html)"

definition wrap_paragraph :: "jsstring \<Rightarrow> jsstring" where
  "wrap_paragraph html =
     (if \<not> prefix (str ''<'') html then str ''<p>'' @ html @ str ''</p>'' else html)"

text \<open>The text before the last step of \<open>renderMarkdown\<close>, and \<open>renderMarkdown\<close>.\<close>

definition before_wrap :: "jsstring \<Rightarrow> jsstring" where
  "before_wrap text =
     line_breaks (blockquotes (ordered_lists (unordered_lists (links (headings
       (italic (bold (inline_code (code_blocks (escape_html text))))))))))"

definition renderMarkdown :: "jsstring \<Rightarrow> jsstring" where
  "renderMarkdown text = wrap_paragraph (before_wrap text)"

section \<open>Predicates of the properties\<close>



text \<open>The code unit before the position behind \<open>xs\<close>, when \<open>prev\<close> is the one before
  \<open>xs\<close>.\<close>

definition last_of :: "jschar option \<Rightarrow> jsstring \<Rightarrow> jschar option" where
  "last_of prev xs = (if xs = [] then prev else Some (last xs))"

text \<open>What the three escaping replacements together do to one code unit.\<close>

definition escape_char :: "jschar \<Rightarrow> jsstring" where
  "escape_char c =
     (if c = CH CHR ''&'' then str ''&amp;''
      else if c = CH CHR ''<'' then str ''&lt;''
      else if c = CH CHR ''>'' then str ''&gt;''
      else [c])"


definition li :: "jsstring \<Rightarrow> jsstring" where
  "li x = str ''<li>'' @ x @ str ''</li>''"

text \<open>
  The characters with a meaning in HTML text, the three entities that the escape step
  writes for them, and the pieces of markup that the replacements of \<open>renderMarkdown\<close>
  write (the opening tag of a code block and of an anchor in two pieces, around the
  language tag and the URL). \<open>safe s\<close>: the text \<open>s\<close> is made of these entities, these
  pieces of markup, and code units without a meaning in HTML.
\<close>

definition special :: "jschar \<Rightarrow> bool" where
  "special c \<longleftrightarrow> c = CH CHR ''&'' \<or> c = CH CHR ''<'' \<or> c = CH CHR ''>''"

definition entities :: "jsstring list" where
  "entities = [str ''&amp;'', str ''&lt;'', str ''&gt;'']"

definition tags :: "jsstring list" where
  \<open>tags =
     [str ''<pre>'', str ''<code class="language-'', str ''">'', str ''</code>'', str ''</pre>'',
      str ''<code>'', str ''<strong>'', str ''</strong>'', str ''<em>'', str ''</em>'',
      str ''<h3>'', str ''</h3>'', str ''<h2>'', str ''</h2>'', str ''<h1>'', str ''</h1>'',
      str ''<a href="'', str ''" target="_blank" rel="noopener">'', str ''</a>'',
      str ''<li>'', str ''</li>'', str ''<ul>'', str ''</ul>'',
      str ''</p>'', str ''<p>'', str ''<br>'']\<close>

definition tokens :: "jsstring list" where
  "tokens = entities @ tags"

inductive safe :: "jsstring \<Rightarrow> bool" where
  safe_Nil: "safe []"
| safe_plain: "\<not> special c \<Longrightarrow> safe s \<Longrightarrow> safe (c # s)"
| safe_token: "t \<in> set tokens \<Longrightarrow> safe s \<Longrightarrow> safe (t @ s)"

text \<open>
  \<open>keeps_safe m\<close>: in a safe text, a match of \<open>m\<close> is not empty, the text before it and the
  text behind it are safe, and so is the replacement (\<open>a\<close> is the text copied since the
  last match and \<open>s\<close> the text from the match on).
\<close>

definition keeps_safe :: "matcher \<Rightarrow> bool" where
  "keeps_safe m \<longleftrightarrow>
     (\<forall>a s prev r n. safe (a @ s) \<longrightarrow> (a \<noteq> [] \<longrightarrow> prev = Some (last a)) \<longrightarrow>
        m prev s = Some (r, n) \<longrightarrow> 0 < n \<and> safe a \<and> safe r \<and> safe (drop n s))"

section \<open>Evaluation\<close>

lemmas render_defs = str_def CH_def is_line_terminator_def is_dot_def is_word_char_def
  is_digit_def is_white_space_def trim_def at_line_start_def replace_g.simps replace_def
  match_lit_def
  code_block_def match_fence_def match_inline_code_def match_delimited_def match_bold_def
  match_italic_def match_line_def match_h1_def match_h2_def match_h3_def match_li_def
  match_blockquote_def anchor_def match_link_def li_item_def li_run.simps match_ul_def
  match_ol_def escape_html_def code_blocks_def inline_code_def bold_def italic_def
  headings_def links_def unordered_lists_def ordered_lists_def blockquotes_def
  line_breaks_def wrap_paragraph_def before_wrap_def renderMarkdown_def Let_def

section \<open>Lemmas on the steps\<close>

subsection \<open>The replace loop\<close>

lemma last_of_simps [simp]:
  "last_of prev [] = prev"
  "last_of prev (xs @ [x]) = Some x"
  "last_of prev (x # xs) = last_of (Some x) xs"
  by (auto simp: last_of_def)

lemma last_of_append: "last_of prev (xs @ ys) = last_of (last_of prev xs) ys"
  by (auto simp: last_of_def)

lemma replace_g_skip:
  assumes "\<And>i. i < length xs \<Longrightarrow> m (last_of prev (take i xs)) (drop i xs @ ys) = None"
  shows "replace_g m prev (xs @ ys) = xs @ replace_g m (last_of prev xs) ys"
  using assms
proof (induction xs arbitrary: prev)
  case Nil
  then show ?case by simp
next
  case (Cons x xs)
  from Cons.prems [of 0] have h0: "m prev (x # xs @ ys) = None" by simp
  have "replace_g m (Some x) (xs @ ys) = xs @ replace_g m (last_of (Some x) xs) ys"
  proof (rule Cons.IH)
    fix i assume "i < length xs"
    with Cons.prems [of "Suc i"] show "m (last_of (Some x) (take i xs)) (drop i xs @ ys) = None"
      by simp
  qed
  with h0 show ?case by (simp add: replace_g.simps)
qed


lemma replace_g_anchored:
  assumes "\<And>p s. \<not> at_line_start p \<Longrightarrow> m p s = None"
    and "\<forall>c \<in> set xs. \<not> is_line_terminator c"
    and "xs \<noteq> [] \<Longrightarrow> m prev (xs @ ys) = None"
  shows "replace_g m prev (xs @ ys) = xs @ replace_g m (last_of prev xs) ys"
proof (rule replace_g_skip)
  fix i assume i: "i < length xs"
  show "m (last_of prev (take i xs)) (drop i xs @ ys) = None"
  proof (cases i)
    case 0
    with i assms(3) show ?thesis by auto
  next
    case (Suc j)
    with i have "take i xs = take j xs @ [xs ! j]" by (simp add: take_Suc_conv_app_nth)
    moreover from i Suc assms(2) have "\<not> is_line_terminator (xs ! j)" by simp
    ultimately have "\<not> at_line_start (last_of prev (take i xs))"
      by (simp add: at_line_start_def)
    then show ?thesis by (rule assms(1))
  qed
qed


lemma replace_g_char:
  "replace_g (match_lit [x] r) prev s = concat (map (\<lambda>c. if c = x then r else [c]) s)"
  by (induction s arbitrary: prev) (auto simp: match_lit_def replace_g.simps)

lemma replace_char:
  "replace (match_lit [x] r) s = concat (map (\<lambda>c. if c = x then r else [c]) s)"
  by (simp add: replace_def replace_g_char)

subsection \<open>The code-block expression\<close>




lemma match_fence_Nil [simp]: "match_fence p [] = None"
  by (simp add: match_fence_def str_def)


subsection \<open>The escape step\<close>

lemma escape_html_concat: "escape_html s = concat (map escape_char s)"
proof -
  have "escape_html s = concat (map (\<lambda>c. escape_html [c]) s)"
    by (induction s) (simp_all add: escape_html_def replace_char str_def)
  moreover have "escape_html [c] = escape_char c" for c
    by (simp add: escape_html_def replace_char escape_char_def str_def CH_def)
  ultimately show ?thesis by simp
qed




subsection \<open>Steps that find no marker\<close>


lemma match_inline_code_Nil [simp]: "match_inline_code p [] = None"
  by (simp add: match_inline_code_def)


lemma match_delimited_Nil [simp]: "d \<noteq> [] \<Longrightarrow> match_delimited d a b p [] = None"
  by (simp add: match_delimited_def)







lemma word_char_not_marker:
  "is_word_char c \<Longrightarrow> c \<noteq> CH CHR ''`'' \<and> c \<noteq> CH CHR ''*'' \<and> c \<noteq> CH CHR ''&'' \<and> c \<noteq> CH CHR ''<''
     \<and> c \<noteq> CH CHR ''>'' \<and> c \<noteq> 0x0A"
  by (auto simp: is_word_char_def CH_def)



subsection \<open>Literal patterns\<close>







subsection \<open>The link expression\<close>



lemma match_link_Nil [simp]: "match_link p [] = None"
  by (simp add: match_link_def)





subsection \<open>Line patterns\<close>






subsection \<open>List items\<close>






lemma match_ul_Nil [simp]: "match_ul p [] = None"
  by (simp add: match_ul_def li_item_def str_def)





subsection \<open>Safe texts\<close>

lemma safe_append: "safe a \<Longrightarrow> safe b \<Longrightarrow> safe (a @ b)"
  by (induction a rule: safe.induct) (auto intro: safe.intros)

lemma safe_plain_list: "\<forall>c \<in> set s. \<not> special c \<Longrightarrow> safe s"
  by (induction s) (auto intro: safe.intros)

lemma safe_tok: "t \<in> set tokens \<Longrightarrow> safe t"
  using safe_token [of t "[]"] safe_Nil by simp

lemma safe_snoc: "safe a \<Longrightarrow> \<not> special c \<Longrightarrow> safe (a @ [c])"
  by (rule safe_append) (auto intro: safe.intros)

lemma safe_split:
  assumes "safe (a @ c # b)"
  shows "(\<not> special c \<and> safe a \<and> safe b) \<or>
         (\<exists>t \<in> set tokens. \<exists>k < length t. t ! k = c \<and>
            (\<exists>a' b'. a = a' @ take k t \<and> b = drop (Suc k) t @ b' \<and> safe a' \<and> safe b'))"
    (is "?P a")
  using assms
proof (induction "a @ c # b" arbitrary: a rule: safe.induct)
  case safe_Nil
  then show ?case by simp
next
  case (safe_plain c0 s)
  show ?case
  proof (cases a)
    case Nil
    with safe_plain show ?thesis by (auto intro: safe.intros)
  next
    case (Cons x a1)
    with safe_plain.hyps(4) have x: "x = c0" and s: "s = a1 @ c # b" by simp_all
    from safe_plain.hyps(3) [OF s] have "?P a1" .
    then show ?thesis
    proof
      assume "\<not> special c \<and> safe a1 \<and> safe b"
      with safe_plain.hyps(1) Cons x show ?thesis by (auto intro: safe.intros)
    next
      assume "\<exists>t \<in> set tokens. \<exists>k < length t. t ! k = c \<and>
            (\<exists>a' b'. a1 = a' @ take k t \<and> b = drop (Suc k) t @ b' \<and> safe a' \<and> safe b')"
      then obtain t k a' b' where t: "t \<in> set tokens" "k < length t" "t ! k = c"
        and ab: "a1 = a' @ take k t" "b = drop (Suc k) t @ b'" "safe a'" "safe b'" by blast
      have "a = (c0 # a') @ take k t" using Cons x ab(1) by simp
      moreover have "safe (c0 # a')" using safe_plain.hyps(1) ab(3) by (rule safe.safe_plain)
      ultimately show ?thesis using t ab(2,4) by blast
    qed
  qed
next
  case (safe_token t s)
  show ?case
  proof (cases "length a < length t")
    case True
    from safe_token.hyps(4) have "take (length a) (t @ s) = a" "drop (length a) (t @ s) = c # b"
      by (metis append_eq_conv_conj)+
    with True have a: "a = take (length a) t" and cb: "drop (length a) t @ s = c # b" by simp_all
    from True have "drop (length a) t = t ! length a # drop (Suc (length a)) t"
      by (simp add: Cons_nth_drop_Suc)
    with cb have "t ! length a = c" "b = drop (Suc (length a)) t @ s" by simp_all
    moreover have "a = [] @ take (length a) t" using a by simp
    ultimately show ?thesis using safe_token.hyps(1,2) True safe_Nil by blast
  next
    case False
    then have "length t \<le> length a" by simp
    with safe_token.hyps(4) obtain a1 where a: "a = t @ a1" and s: "s = a1 @ c # b"
      by (metis append_eq_append_conv_if append_eq_conv_conj)
    from safe_token.hyps(3) [OF s] have "?P a1" .
    then show ?thesis
    proof
      assume "\<not> special c \<and> safe a1 \<and> safe b"
      with safe_token.hyps(1) a show ?thesis by (auto intro: safe.intros)
    next
      assume "\<exists>u \<in> set tokens. \<exists>k < length u. u ! k = c \<and>
            (\<exists>a' b'. a1 = a' @ take k u \<and> b = drop (Suc k) u @ b' \<and> safe a' \<and> safe b')"
      then obtain u k a' b' where u: "u \<in> set tokens" "k < length u" "u ! k = c"
        and ab: "a1 = a' @ take k u" "b = drop (Suc k) u @ b'" "safe a'" "safe b'" by blast
      have "a = (t @ a') @ take k u" using a ab(1) by simp
      moreover have "safe (t @ a')" using safe_token.hyps(1) ab(3) by (rule safe.safe_token)
      ultimately show ?thesis using u ab(2,4) by blast
    qed
  qed
qed

subsection \<open>The pieces of markup\<close>

lemma token_concat:
  \<open>set (concat tokens)
   = set (str ''&amp;ltg<>precodlas="nu-/strongh321f_bk ib'')\<close>
  by (simp add: tokens_def entities_def tags_def str_def CH_def insert_commute)

lemma sep_chars:
  "c \<in> set (str ''`*#[]()'') \<or> is_line_terminator c \<Longrightarrow> c \<notin> set (concat tokens)"
  unfolding token_concat by (auto simp: str_def CH_def is_line_terminator_def)

lemma token_heads:
  \<open>set (map hd tokens) = {CH CHR ''&'', CH CHR ''<'', CH CHR 0x22}\<close>
  by (simp add: tokens_def entities_def tags_def str_def CH_def insert_commute)

lemma token_lasts:
  \<open>set (map last tokens) = {CH CHR '';'', CH CHR ''>'', CH CHR ''-'', CH CHR 0x22}\<close>
  by (simp add: tokens_def entities_def tags_def str_def CH_def insert_commute)

lemma token_tails:
  "CH CHR ''<'' \<notin> set (concat (map tl tokens))"
  "CH CHR ''&'' \<notin> set (concat (map tl tokens))"
  by (simp_all add: tokens_def entities_def tags_def str_def CH_def)

lemma token_inits:
  "CH CHR ''>'' \<notin> set (concat (map butlast tokens))"
  by (simp add: tokens_def entities_def tags_def str_def CH_def)

lemma token_nonempty: "t \<in> set tokens \<Longrightarrow> t \<noteq> []"
proof -
  have "[] \<notin> set tokens" by (simp add: tokens_def entities_def tags_def str_def)
  then show "t \<in> set tokens \<Longrightarrow> t \<noteq> []" by auto
qed

lemma safe_sep:
  assumes "safe (a @ c # b)" and "c \<notin> set (concat tokens)"
  shows "safe a \<and> safe b"
  using safe_split [OF assms(1)] assms(2) by (auto dest: nth_mem)

lemma safe_head:
  assumes "safe (a @ c # b)" and "special c" and "c \<notin> set (concat (map tl tokens))"
  shows "safe a \<and> safe (c # b) \<and> (\<exists>t \<in> set tokens. prefix t (c # b))"
proof -
  from safe_split [OF assms(1)] assms(2)
  obtain t k a' b' where t: "t \<in> set tokens" "k < length t" "t ! k = c"
    and ab: "a = a' @ take k t" "b = drop (Suc k) t @ b'" "safe a'" "safe b'" by blast
  have "k = 0"
  proof (rule ccontr)
    assume "k \<noteq> 0"
    then obtain j where j: "k = Suc j" by (cases k) auto
    with t(2) have jl: "j < length (tl t)" by simp
    then have "tl t ! j = t ! Suc j" by (rule List.nth_tl)
    with t(3) j have "c = tl t ! j" by simp
    with jl have "c \<in> set (tl t)" by simp
    with t(1) assms(3) show False by auto
  qed
  moreover from t(1) have "t \<noteq> []" by (rule token_nonempty)
  ultimately have "a = a'" "c # b = t @ b'"
    using t(3) ab(1,2) by (cases t; simp)+
  moreover have "safe (t @ b')" using t(1) ab(4) by (rule safe_token)
  moreover have "prefix t (t @ b')" by simp
  ultimately show ?thesis using ab(3) t(1) by metis
qed

lemma safe_last:
  assumes "safe (a @ c # b)" and "special c" and "c \<notin> set (concat (map butlast tokens))"
  shows "safe (a @ [c]) \<and> safe b \<and> (\<exists>t \<in> set tokens. suffix t (a @ [c]))"
proof -
  from safe_split [OF assms(1)] assms(2)
  obtain t k a' b' where t: "t \<in> set tokens" "k < length t" "t ! k = c"
    and ab: "a = a' @ take k t" "b = drop (Suc k) t @ b'" "safe a'" "safe b'" by blast
  have "Suc k = length t"
  proof (rule ccontr)
    assume "Suc k \<noteq> length t"
    with t(2) have "k < length (butlast t)" by simp
    moreover from this have "butlast t ! k = t ! k" by (rule nth_butlast)
    ultimately have "c \<in> set (butlast t)" using t(3) nth_mem [of k "butlast t"] by simp
    with t(1) assms(3) show False by auto
  qed
  moreover from this t(2,3) have "take k t @ [c] = t"
    using take_Suc_conv_app_nth [of k t] by simp
  ultimately have "b = b'" "a @ [c] = a' @ t"
    using ab(1,2) by simp_all
  with ab(3,4) t(1) show ?thesis by (auto intro: safe_append safe_tok simp: suffix_def)
qed

lemma safe_strip1:
  assumes "safe (c # b)" and "c \<notin> set (map hd tokens)"
  shows "\<not> special c \<and> safe b"
proof -
  from safe_split [of "[]" c b] assms(1)
  consider "\<not> special c \<and> safe b"
    | t k where "t \<in> set tokens" "k < length t" "t ! k = c" "take k t = []"
    by auto
  then show ?thesis
  proof cases
    case 1
    then show ?thesis .
  next
    case 2
    from 2(1) have "t \<noteq> []" by (rule token_nonempty)
    with 2(4) have "k = 0" by simp
    with 2 \<open>t \<noteq> []\<close> have "c = hd t" by (simp add: hd_conv_nth)
    with 2(1) assms(2) show ?thesis by auto
  qed
qed

lemma safe_strip_last:
  assumes "safe (a @ [c])" and "c \<notin> set (map last tokens)"
  shows "\<not> special c \<and> safe a"
proof -
  from safe_split [of a c "[]"] assms(1)
  consider "\<not> special c \<and> safe a"
    | t k where "t \<in> set tokens" "k < length t" "t ! k = c" "drop (Suc k) t = []"
    by auto
  then show ?thesis
  proof cases
    case 1
    then show ?thesis .
  next
    case 2
    then have "Suc k = length t" by simp
    then have k: "k = length t - 1" by simp
    from 2(1) have "t \<noteq> []" by (rule token_nonempty)
    then have "last t = t ! (length t - 1)" by (rule last_conv_nth)
    with k 2(3) have "c = last t" by simp
    with 2(1) assms(2) show ?thesis by auto
  qed
qed

lemma safe_seps:
  assumes "pat \<noteq> []" and "\<forall>c \<in> set pat. c \<notin> set (concat tokens)"
    and "safe (a @ pat @ b)"
  shows "safe a \<and> safe b"
  using assms
proof (induction pat arbitrary: a rule: list_nonempty_induct)
  case (single c)
  then show ?case using safe_sep [of a c b] by simp
next
  case (cons c pat)
  from cons.prems(2) have "safe (a @ c # (pat @ b))" by simp
  moreover from cons.prems(1) have "c \<notin> set (concat tokens)" by simp
  ultimately have "safe a \<and> safe (pat @ b)" by (rule safe_sep)
  moreover from this have "safe ([] @ pat @ b)" by simp
  moreover from cons.prems(1) have "\<forall>c \<in> set pat. c \<notin> set (concat tokens)" by simp
  ultimately show ?case using cons.IH [of "[]"] by blast
qed

subsection \<open>The replace loop on safe texts\<close>

lemma keeps_safeD:
  assumes "keeps_safe m" "safe (a @ s)" "a \<noteq> [] \<longrightarrow> prev = Some (last a)" "m prev s = Some (r, n)"
  shows "0 < n" "safe a" "safe r" "safe (drop n s)"
  using assms unfolding keeps_safe_def by blast+

lemma replace_g_safe:
  assumes "keeps_safe m"
  shows "safe (a @ s) \<Longrightarrow> (a \<noteq> [] \<longrightarrow> prev = Some (last a)) \<Longrightarrow> safe (a @ replace_g m prev s)"
proof (induction s arbitrary: a prev rule: length_induct)
  case (1 s)
  from "1.IH" have ih: "\<And>ys x xa. length ys < length s \<Longrightarrow> safe (x @ ys) \<Longrightarrow>
      (x \<noteq> [] \<longrightarrow> xa = Some (last x)) \<Longrightarrow> safe (x @ replace_g m xa ys)"
    by blast
  show ?case
  proof (cases "m prev s")
    case None
    show ?thesis
    proof (cases s)
      case Nil
      with None "1.prems"(1) show ?thesis by (simp add: replace_g.simps)
    next
      case (Cons c s')
      have "safe ((a @ [c]) @ replace_g m (Some c) s')"
        by (rule ih) (use "1.prems"(1) Cons in simp_all)
      with None Cons show ?thesis by (simp add: replace_g.simps)
    qed
  next
    case (Some x)
    obtain r n where x: "x = (r, n)" by (cases x)
    from keeps_safeD [OF assms "1.prems" Some [unfolded x]]
    have n: "0 < n" and a: "safe a" and r: "safe r" and d: "safe (drop n s)" .
    show ?thesis
    proof (cases s)
      case Nil
      with Some x a r show ?thesis by (simp add: replace_g.simps safe_append)
    next
      case (Cons c s')
      from n Cons have "length (drop n s) < length s" by simp
      then have "safe ([] @ replace_g m (Some (last (take n s))) (drop n s))"
        by (rule ih) (use d in simp_all)
      with a r have "safe (a @ r @ replace_g m (Some (last (take n s))) (drop n s))"
        by (simp add: safe_append)
      with Some x n Cons show ?thesis by (simp add: replace_g.simps)
    qed
  qed
qed

lemma replace_safe: "keeps_safe m \<Longrightarrow> safe s \<Longrightarrow> safe (replace m s)"
  using replace_g_safe [of m "[]" s None] by (simp add: replace_def)

subsection \<open>Literal patterns and inline code on safe texts\<close>

lemma lt_not_special: "is_line_terminator c \<Longrightarrow> \<not> special c"
  by (auto simp: is_line_terminator_def special_def CH_def)

lemma keeps_safe_lit:
  assumes "pat \<noteq> []" "\<forall>c \<in> set pat. c \<notin> set (concat tokens)" "safe r"
  shows "keeps_safe (match_lit pat r)"
  unfolding keeps_safe_def
proof (intro allI impI)
  fix a s prev r' n
  assume s: "safe (a @ s)" and m: "match_lit pat r prev s = Some (r', n)"
  from m obtain rest where eq: "s = pat @ rest" "r' = r" "n = length pat"
    by (auto simp: match_lit_def prefix_def split: if_splits)
  from safe_seps [OF assms(1,2), of a rest] s eq have "safe a" "safe rest" by simp_all
  with eq assms(1,3) show "0 < n \<and> safe a \<and> safe r' \<and> safe (drop n s)" by simp
qed

lemma match_inline_code_shape:
  assumes "match_inline_code p s = Some (r, n)"
  shows "\<exists>code rest. s = CH CHR ''`'' # code @ CH CHR ''`'' # rest \<and>
           r = str ''<code>'' @ code @ str ''</code>'' \<and> n = length code + 2"
proof -
  from assms obtain s1 where s: "s = CH CHR ''`'' # s1"
    by (cases s) (auto simp: match_inline_code_def split: if_splits)
  let ?P = "\<lambda>x. x \<noteq> CH CHR ''`''"
  from assms s have r: "r = str ''<code>'' @ takeWhile ?P s1 @ str ''</code>''"
    and n: "n = length (takeWhile ?P s1) + 2"
    and pre: "prefix (str ''`'') (dropWhile ?P s1)"
    by (auto simp: match_inline_code_def Let_def split: if_splits)
  from pre obtain rest where "dropWhile ?P s1 = CH CHR ''`'' # rest"
    by (auto simp: prefix_def str_def)
  then have "s1 = takeWhile ?P s1 @ CH CHR ''`'' # rest"
    using takeWhile_dropWhile_id [of ?P s1] by simp
  with s r n show ?thesis by blast
qed

lemma safe_tag:
  \<open>safe (str ''<pre>'')\<close> \<open>safe (str ''<code class="language-'')\<close> \<open>safe (str ''">'')\<close>
  \<open>safe (str ''</code>'')\<close> \<open>safe (str ''</pre>'')\<close> \<open>safe (str ''<code>'')\<close>
  \<open>safe (str ''<strong>'')\<close> \<open>safe (str ''</strong>'')\<close> \<open>safe (str ''<em>'')\<close>
  \<open>safe (str ''</em>'')\<close> \<open>safe (str ''<h3>'')\<close> \<open>safe (str ''</h3>'')\<close>
  \<open>safe (str ''<h2>'')\<close> \<open>safe (str ''</h2>'')\<close> \<open>safe (str ''<h1>'')\<close>
  \<open>safe (str ''</h1>'')\<close> \<open>safe (str ''<a href="'')\<close>
  \<open>safe (str ''" target="_blank" rel="noopener">'')\<close> \<open>safe (str ''</a>'')\<close>
  \<open>safe (str ''<li>'')\<close> \<open>safe (str ''</li>'')\<close> \<open>safe (str ''<ul>'')\<close>
  \<open>safe (str ''</ul>'')\<close> \<open>safe (str ''</p>'')\<close> \<open>safe (str ''<p>'')\<close>
  \<open>safe (str ''<br>'')\<close> \<open>safe (str ''&amp;'')\<close> \<open>safe (str ''&lt;'')\<close>
  \<open>safe (str ''&gt;'')\<close>
  by (rule safe_tok, simp add: tokens_def tags_def entities_def)+

lemma keeps_safe_inline_code: "keeps_safe match_inline_code"
  unfolding keeps_safe_def
proof (intro allI impI)
  fix a s prev r n
  assume s: "safe (a @ s)" and m: "match_inline_code prev s = Some (r, n)"
  from match_inline_code_shape [OF m] obtain code rest where
    eq: "s = CH CHR ''`'' # code @ CH CHR ''`'' # rest"
      "r = str ''<code>'' @ code @ str ''</code>''" "n = length code + 2" by blast
  have sep: "CH CHR ''`'' \<notin> set (concat tokens)" by (rule sep_chars) (simp add: str_def)
  from s have "safe (a @ CH CHR ''`'' # (code @ CH CHR ''`'' # rest))" unfolding eq(1) .
  then have 1: "safe a \<and> safe (code @ CH CHR ''`'' # rest)" using sep by (rule safe_sep)
  have 2: "safe code \<and> safe rest" using 1 [THEN conjunct2] sep by (rule safe_sep)
  have "drop n s = drop (length (CH CHR ''`'' # code @ [CH CHR ''`''])) ((CH CHR ''`'' # code @ [CH CHR ''`'']) @ rest)"
    unfolding eq by simp
  then have d: "drop n s = rest" by (simp only: drop_append length_append diff_self_eq_0 drop_all order_refl drop_0 append_Nil)
  have r: "safe r" unfolding eq(2) using 2 safe_tag by (intro safe_append) simp_all
  from 1 2 d r eq(3) show "0 < n \<and> safe a \<and> safe r \<and> safe (drop n s)" by simp
qed

subsection \<open>The shape of a match\<close>

lemma lazy_any_Some: "lazy_any pat s = Some k \<Longrightarrow> k \<le> length s \<and> (\<exists>rest. drop k s = pat @ rest)"
proof (induction s arbitrary: k)
  case Nil
  then show ?case by (simp split: if_splits)
next
  case (Cons c s)
  show ?case
  proof (cases "prefix pat (c # s)")
    case True
    with Cons.prems show ?thesis by (auto simp: prefix_def)
  next
    case False
    with Cons.prems obtain j where j: "lazy_any pat s = Some j" "k = Suc j" by auto
    from Cons.IH [OF j(1)] j(2) show ?thesis by simp
  qed
qed

lemma lazy_dot_Some: "lazy_dot pat s = Some k \<Longrightarrow> k \<le> length s \<and> (\<exists>rest. drop k s = pat @ rest)"
proof (induction s arbitrary: k)
  case Nil
  then show ?case by (simp split: if_splits)
next
  case (Cons c s)
  show ?case
  proof (cases "prefix pat (c # s)")
    case True
    with Cons.prems show ?thesis by (auto simp: prefix_def)
  next
    case False
    with Cons.prems obtain j where j: "lazy_dot pat s = Some j" "k = Suc j"
      by (auto split: if_splits)
    from Cons.IH [OF j(1)] j(2) show ?thesis by simp
  qed
qed

lemma greedy_dot_Some: "greedy_dot pat s = Some k \<Longrightarrow> k \<le> length s \<and> (\<exists>rest. drop k s = pat @ rest)"
proof (induction s arbitrary: k)
  case Nil
  then show ?case by (simp split: if_splits)
next
  case (Cons c s)
  show ?case
  proof (cases "greedy_dot pat s")
    case None
    with Cons.prems have "k = 0" "prefix pat (c # s)" by (auto split: if_splits)
    then show ?thesis by (auto simp: prefix_def)
  next
    case (Some j)
    show ?thesis
    proof (cases "is_line_terminator c")
      case True
      with Cons.prems have "k = 0" "prefix pat (c # s)" by (auto split: if_splits)
      then show ?thesis by (auto simp: prefix_def)
    next
      case False
      with Cons.prems Some have "k = Suc j" by simp
      with Cons.IH [OF Some] show ?thesis by simp
    qed
  qed
qed

lemma drop_decompose: "k \<le> length s \<Longrightarrow> drop k s = t \<Longrightarrow> s = take k s @ t \<and> length (take k s) = k"
  by (metis append_take_drop_id length_take min.absorb2)

lemma match_fence_shape:
  assumes "match_fence p s = Some (r, n)"
  shows "\<exists>lang code rest. s = str ''```'' @ lang @ 0x0A # code @ str ''```'' @ rest \<and>
           (\<forall>c \<in> set lang. is_word_char c) \<and> r = code_block lang code \<and>
           n = length (str ''```'' @ lang @ 0x0A # code @ str ''```'')"
proof -
  let ?s1 = "drop 3 s"
  let ?lang = "takeWhile is_word_char ?s1"
  from assms have pre: "prefix (str ''```'') s"
    by (simp add: match_fence_def split: if_splits)
  then have s: "s = str ''```'' @ ?s1" by (auto simp: prefix_def str_def)
  from assms pre obtain s3 k where
    s2: "dropWhile is_word_char ?s1 = 0x0A # s3" and k: "lazy_any (str ''```'') s3 = Some k"
    and r: "r = code_block ?lang (take k s3)" and n: "n = 3 + length ?lang + 1 + k + 3"
    by (auto simp: match_fence_def Let_def split: list.splits if_splits option.splits)
  from lazy_any_Some [OF k] obtain rest where kl: "k \<le> length s3" and d: "drop k s3 = str ''```'' @ rest"
    by blast
  from drop_decompose [OF kl d] have s3: "s3 = take k s3 @ str ''```'' @ rest" and lk: "length (take k s3) = k"
    by simp_all
  have s1: "?s1 = ?lang @ 0x0A # s3"
    using takeWhile_dropWhile_id [of is_word_char ?s1] s2 by simp
  have w: "\<forall>c \<in> set ?lang. is_word_char c" by (auto dest: set_takeWhileD)
  have "s = str ''```'' @ ?lang @ 0x0A # take k s3 @ str ''```'' @ rest"
    using s s1 s3 by metis
  moreover have "n = length (str ''```'' @ ?lang @ 0x0A # take k s3 @ str ''```'')"
    unfolding n using lk by (simp add: str_def)
  ultimately show ?thesis using w r by blast
qed

lemma match_delimited_shape:
  assumes "match_delimited d topen tclose p s = Some (r, n)"
  shows "\<exists>body rest. s = d @ body @ d @ rest \<and> r = topen @ body @ tclose \<and>
           n = length (d @ body @ d)"
proof -
  from assms have pre: "prefix d s"
    by (simp add: match_delimited_def split: if_splits)
  then have s: "s = d @ drop (length d) s" by (auto simp: prefix_def)
  from assms pre obtain c s1 k where
    s0: "drop (length d) s = c # s1" and k: "lazy_dot d s1 = Some k"
    and r: "r = topen @ take (Suc k) (c # s1) @ tclose" and n: "n = length d + Suc k + length d"
    by (auto simp: match_delimited_def split: list.splits if_splits option.splits)
  from lazy_dot_Some [OF k] obtain rest where kl: "k \<le> length s1" and d: "drop k s1 = d @ rest"
    by blast
  from drop_decompose [OF kl d] have s1: "s1 = take k s1 @ d @ rest" and lk: "length (take k s1) = k"
    by simp_all
  let ?body = "c # take k s1"
  have "s = d @ ?body @ d @ rest" using s s0 s1 by (metis append_Cons)
  moreover have "r = topen @ ?body @ tclose" using r by simp
  moreover have "n = length (d @ ?body @ d)" unfolding n using lk by simp
  ultimately show ?thesis by blast
qed

lemma dropWhile_dot: "dropWhile is_dot s = [] \<or> is_line_terminator (hd (dropWhile is_dot s))"
  using hd_dropWhile [of is_dot s] by (auto simp: is_dot_def)

lemma match_line_shape:
  assumes "match_line mark topen tclose p s = Some (r, n)"
  shows "at_line_start p \<and> (\<exists>body rest. s = mark @ body @ rest \<and>
           (rest = [] \<or> is_line_terminator (hd rest)) \<and> r = topen @ body @ tclose \<and>
           n = length (mark @ body))"
proof -
  let ?s0 = "drop (length mark) s"
  from assms have p: "at_line_start p" and pre: "prefix mark s"
    by (simp_all add: match_line_def split: if_splits)
  then have s: "s = mark @ ?s0" by (auto simp: prefix_def)
  from assms p pre have r: "r = topen @ takeWhile is_dot ?s0 @ tclose"
    and n: "n = length mark + length (takeWhile is_dot ?s0)"
    by (auto simp: match_line_def Let_def split: if_splits)
  have "s = mark @ takeWhile is_dot ?s0 @ dropWhile is_dot ?s0"
    using s takeWhile_dropWhile_id [of is_dot ?s0] by simp
  with p r n dropWhile_dot [of ?s0] show ?thesis by (metis length_append)
qed

lemma match_ol_shape:
  assumes "match_ol p s = Some (r, n)"
  shows "at_line_start p \<and> (\<exists>digits body rest. s = (digits @ str ''. '') @ body @ rest \<and>
           (\<forall>c \<in> set digits. is_digit c) \<and>
           (rest = [] \<or> is_line_terminator (hd rest)) \<and> r = str ''<li>'' @ body @ str ''</li>'' \<and>
           n = length ((digits @ str ''. '') @ body))"
proof -
  let ?d = "takeWhile is_digit s"
  let ?s1 = "dropWhile is_digit s"
  let ?s2 = "drop 2 ?s1"
  from assms have p: "at_line_start p" by (simp add: match_ol_def split: if_splits)
  from assms p have pre: "prefix (str ''. '') ?s1"
    and r: "r = str ''<li>'' @ takeWhile is_dot ?s2 @ str ''</li>''"
    and n: "n = length ?d + 2 + length (takeWhile is_dot ?s2)"
    by (auto simp: match_ol_def Let_def split: if_splits)
  from pre have s1: "?s1 = str ''. '' @ ?s2" by (auto simp: prefix_def str_def)
  have "s = ?d @ ?s1" by simp
  also have "?s1 = str ''. '' @ takeWhile is_dot ?s2 @ dropWhile is_dot ?s2"
    using s1 takeWhile_dropWhile_id [of is_dot ?s2] by simp
  finally have s: "s = (?d @ str ''. '') @ takeWhile is_dot ?s2 @ dropWhile is_dot ?s2" by simp
  have d: "\<forall>c \<in> set ?d. is_digit c" by (auto dest: set_takeWhileD)
  have n': "n = length ((?d @ str ''. '') @ takeWhile is_dot ?s2)"
    unfolding n by (simp add: str_def)
  from p s d r n' dropWhile_dot [of ?s2] show ?thesis by blast
qed

lemma match_link_shape:
  assumes "match_link p s = Some (r, n)"
  shows "\<exists>label url rest. s = CH CHR ''['' # label @ CH CHR '']'' # CH CHR ''('' # url @ CH CHR '')'' # rest \<and>
           r = anchor label url \<and>
           n = length (CH CHR ''['' # label @ CH CHR '']'' # CH CHR ''('' # url @ [CH CHR '')''])"
proof -
  from assms obtain s1 where s: "s = CH CHR ''['' # s1"
    by (cases s) (auto simp: match_link_def split: if_splits)
  let ?P = "\<lambda>x. x \<noteq> CH CHR '']''"
  let ?Q = "\<lambda>x. x \<noteq> CH CHR '')''"
  let ?s3 = "drop 2 (dropWhile ?P s1)"
  from assms s have pre: "prefix (str ''](''  ) (dropWhile ?P s1)"
    and pre2: "prefix (str '')'') (dropWhile ?Q ?s3)"
    and r: "r = anchor (takeWhile ?P s1) (takeWhile ?Q ?s3)"
    and n: "n = 1 + length (takeWhile ?P s1) + 2 + length (takeWhile ?Q ?s3) + 1"
    by (auto simp: match_link_def Let_def split: if_splits)
  from pre have s2: "dropWhile ?P s1 = CH CHR '']'' # CH CHR ''('' # ?s3"
    by (auto simp: prefix_def str_def)
  from pre2 obtain rest where s4: "dropWhile ?Q ?s3 = CH CHR '')'' # rest"
    by (auto simp: prefix_def str_def)
  have "s1 = takeWhile ?P s1 @ CH CHR '']'' # CH CHR ''('' # ?s3"
    using takeWhile_dropWhile_id [of ?P s1] s2 by simp
  moreover have "?s3 = takeWhile ?Q ?s3 @ CH CHR '')'' # rest"
    using takeWhile_dropWhile_id [of ?Q ?s3] s4 by simp
  ultimately have "s = CH CHR ''['' # takeWhile ?P s1 @ CH CHR '']'' # CH CHR ''('' # takeWhile ?Q ?s3 @ CH CHR '')'' # rest"
    using s by metis
  moreover have "n = length (CH CHR ''['' # takeWhile ?P s1 @ CH CHR '']'' # CH CHR ''('' # takeWhile ?Q ?s3 @ [CH CHR '')''])"
    unfolding n by simp
  ultimately show ?thesis using r by blast
qed

subsection \<open>The shape of a list match\<close>

lemma li_item_shape:
  assumes "li_item s = Some n"
  shows "prefix (str ''<li>'') s \<and>
         (\<exists>m rest. s = m @ rest \<and> n = length m \<and> m \<noteq> [] \<and> (last m = CH CHR ''>'' \<or> last m = 0x0A))"
proof -
  from assms have pre: "prefix (str ''<li>'') s"
    by (simp add: li_item_def split: if_splits)
  from assms pre obtain k where k: "greedy_dot (str ''</li>'') (drop 4 s) = Some k"
    and n: "n = (if prefix [0x0A] (drop (4 + k + 5) s) then 4 + k + 5 + 1 else 4 + k + 5)"
    by (auto simp: li_item_def split: option.splits if_splits)
  from greedy_dot_Some [OF k] obtain rest where kl: "k \<le> length (drop 4 s)"
    and d: "drop k (drop 4 s) = str ''</li>'' @ rest" by blast
  from pre have l4: "4 \<le> length s" by (auto simp: prefix_def str_def)
  with kl have kl': "4 + k \<le> length s" by simp
  from d have d': "drop (4 + k) s = str ''</li>'' @ rest" by (simp add: add.commute)
  define m0 where "m0 = take (4 + k) s"
  note dd = drop_decompose [OF kl' d']
  have s: "s = m0 @ str ''</li>'' @ rest"
    unfolding m0_def by (rule dd [THEN conjunct1])
  have lk: "length m0 = 4 + k"
    unfolding m0_def by (rule dd [THEN conjunct2])
  let ?m = "m0 @ str ''</li>''"
  have lm: "length ?m = 4 + k + 5" using lk by (simp add: str_def)
  have sm: "s = ?m @ rest" using s by simp
  have dr: "drop (4 + k + 5) s = rest"
    unfolding sm lm [symmetric] by simp
  show ?thesis
  proof (cases "prefix [0x0A] rest")
    case False
    with n dr have nn: "n = length ?m" using lm by simp
    have l: "last ?m = CH CHR ''>''" by (simp add: str_def)
    have ne: "?m \<noteq> []" by (simp add: str_def)
    from pre sm nn l ne show ?thesis by (intro conjI exI [of _ ?m] exI [of _ rest]) simp_all
  next
    case True
    then obtain rest' where rest: "rest = 0x0A # rest'" by (auto simp: prefix_def)
    with n dr True have nn: "n = length (?m @ [0x0A])" using lm by simp
    have sm': "s = (?m @ [0x0A]) @ rest'" using sm rest by simp
    have l: "last (?m @ [0x0A]) = 0x0A" by simp
    from pre sm' nn l show ?thesis
      by (intro conjI exI [of _ "?m @ [0x0A]"] exI [of _ rest']) simp_all
  qed
qed

lemma li_run_shape:
  "li_run s = 0 \<or>
   (\<exists>m rest. s = m @ rest \<and> li_run s = length m \<and> m \<noteq> [] \<and> (last m = CH CHR ''>'' \<or> last m = 0x0A))"
proof (induction s rule: li_run.induct)
  case (1 s)
  show ?case
  proof (cases "li_item s")
    case None
    then show ?thesis by (simp add: li_run.simps)
  next
    case (Some n)
    from li_item_shape [OF Some] obtain m rest where
      m: "s = m @ rest" "n = length m" "m \<noteq> []" "last m = CH CHR ''>'' \<or> last m = 0x0A" by blast
    then have dr: "drop n s = rest" by simp
    have run: "li_run s = n + li_run rest"
      using Some dr by (subst li_run.simps) simp
    from "1.IH" [OF Some] dr
    consider "li_run rest = 0"
      | m2 rest2 where "rest = m2 @ rest2" "li_run rest = length m2" "m2 \<noteq> []"
          "last m2 = CH CHR ''>'' \<or> last m2 = 0x0A"
      by auto
    then show ?thesis
    proof cases
      case 1
      with run m(2) have "li_run s = length m" by simp
      with m(1,3,4) have "s = m @ rest \<and> li_run s = length m \<and> m \<noteq> [] \<and>
          (last m = CH CHR ''>'' \<or> last m = 0x0A)" by simp
      then show ?thesis by - (rule disjI2, rule exI [of _ m], rule exI [of _ rest], assumption)
    next
      case 2
      have a: "s = (m @ m2) @ rest2" using m(1) 2(1) by simp
      have b: "li_run s = length (m @ m2)" using run m(2) 2(2) by simp
      have c: "m @ m2 \<noteq> []" using m(3) by simp
      have d: "last (m @ m2) = CH CHR ''>'' \<or> last (m @ m2) = 0x0A"
        using 2(3,4) by simp
      from a b c d have "s = (m @ m2) @ rest2 \<and> li_run s = length (m @ m2) \<and> m @ m2 \<noteq> [] \<and>
          (last (m @ m2) = CH CHR ''>'' \<or> last (m @ m2) = 0x0A)" by simp
      then show ?thesis
        by - (rule disjI2, rule exI [of _ "m @ m2"], rule exI [of _ rest2], assumption)
    qed
  qed
qed

lemma match_ul_shape:
  assumes "match_ul p s = Some (r, n)"
  shows "prefix (str ''<li>'') s \<and>
         (\<exists>m rest. s = m @ rest \<and> n = length m \<and> m \<noteq> [] \<and> (last m = CH CHR ''>'' \<or> last m = 0x0A) \<and>
            r = str ''<ul>'' @ m @ str ''</ul>'')"
proof -
  from assms obtain n1 where n1: "li_item s = Some n1"
    and n: "n = n1 + li_run (drop n1 s)" and r: "r = str ''<ul>'' @ take n s @ str ''</ul>''"
    by (auto simp: match_ul_def Let_def split: option.splits)
  from li_item_shape [OF n1] obtain m rest where pre: "prefix (str ''<li>'') s" and
    m: "s = m @ rest" "n1 = length m" "m \<noteq> []" "last m = CH CHR ''>'' \<or> last m = 0x0A" by blast
  then have dr: "drop n1 s = rest" by simp
  from li_run_shape [of rest]
  consider "li_run rest = 0"
    | m2 rest2 where "rest = m2 @ rest2" "li_run rest = length m2" "m2 \<noteq> []"
        "last m2 = CH CHR ''>'' \<or> last m2 = 0x0A"
    by auto
  then show ?thesis
  proof cases
    case 1
    with n dr m(2) have nn: "n = length m" by simp
    from this m(1) have "take n s = m" by simp
    with r have r': "r = str ''<ul>'' @ m @ str ''</ul>''" by simp
    from m(1) nn m(3,4) r' have "s = m @ rest \<and> n = length m \<and> m \<noteq> [] \<and>
        (last m = CH CHR ''>'' \<or> last m = 0x0A) \<and> r = str ''<ul>'' @ m @ str ''</ul>''" by simp
    then have "\<exists>m rest. s = m @ rest \<and> n = length m \<and> m \<noteq> [] \<and>
        (last m = CH CHR ''>'' \<or> last m = 0x0A) \<and> r = str ''<ul>'' @ m @ str ''</ul>''"
      by - (rule exI [of _ m], rule exI [of _ rest], assumption)
    with pre show ?thesis by (rule conjI)
  next
    case 2
    have s: "s = (m @ m2) @ rest2" using m(1) 2(1) by simp
    have nn: "n = length (m @ m2)" using n dr m(2) 2(2) by simp
    have "take n s = m @ m2" unfolding s nn by simp
    with r have r': "r = str ''<ul>'' @ (m @ m2) @ str ''</ul>''" by simp
    have c: "m @ m2 \<noteq> []" using m(3) by simp
    have d: "last (m @ m2) = CH CHR ''>'' \<or> last (m @ m2) = 0x0A"
      using 2(3,4) by simp
    from s nn c d r' have "s = (m @ m2) @ rest2 \<and> n = length (m @ m2) \<and> m @ m2 \<noteq> [] \<and>
        (last (m @ m2) = CH CHR ''>'' \<or> last (m @ m2) = 0x0A) \<and>
        r = str ''<ul>'' @ (m @ m2) @ str ''</ul>''" by simp
    then have "\<exists>m rest. s = m @ rest \<and> n = length m \<and> m \<noteq> [] \<and>
        (last m = CH CHR ''>'' \<or> last m = 0x0A) \<and> r = str ''<ul>'' @ m @ str ''</ul>''"
      by - (rule exI [of _ "m @ m2"], rule exI [of _ rest2], assumption)
    with pre show ?thesis by (rule conjI)
  qed
qed

subsection \<open>The expressions on safe texts\<close>

lemma safe_strip:
  assumes "\<forall>c \<in> set mark. c \<notin> set (map hd tokens)" and "safe (mark @ x)"
  shows "(\<forall>c \<in> set mark. \<not> special c) \<and> safe x"
  using assms
proof (induction mark)
  case Nil
  then show ?case by simp
next
  case (Cons c mark)
  from Cons.prems have "safe (c # (mark @ x))" "c \<notin> set (map hd tokens)" by simp_all
  then have "\<not> special c \<and> safe (mark @ x)" by (rule safe_strip1)
  with Cons.IH Cons.prems(1) show ?case by simp
qed

lemma safe_line_end:
  assumes "safe (body @ rest)" and "rest = [] \<or> is_line_terminator (hd rest)"
  shows "safe body \<and> safe rest"
proof (cases rest)
  case Nil
  with assms(1) show ?thesis by (simp add: safe_Nil)
next
  case (Cons c rest')
  with assms(2) have lt: "is_line_terminator c" by simp
  then have sep: "c \<notin> set (concat tokens)" by (intro sep_chars) simp
  from assms(1) Cons have "safe (body @ c # rest')" by simp
  then have "safe body \<and> safe rest'" using sep by (rule safe_sep)
  with lt Cons show ?thesis by (simp add: safe_plain lt_not_special)
qed

lemma safe_at_line_start:
  assumes "safe (a @ s)" and "a \<noteq> [] \<longrightarrow> prev = Some (last a)" and "at_line_start prev"
  shows "safe a \<and> safe s"
proof (cases "a = []")
  case True
  with assms(1) show ?thesis by (simp add: safe_Nil)
next
  case False
  with assms(2,3) have lt: "is_line_terminator (last a)" by (simp add: at_line_start_def)
  then have sep: "last a \<notin> set (concat tokens)" by (intro sep_chars) simp
  from False have a: "a = butlast a @ [last a]" by simp
  with assms(1) have "safe (butlast a @ last a # s)" by (metis append.assoc append_Cons append_Nil)
  then have "safe (butlast a) \<and> safe s" using sep by (rule safe_sep)
  moreover from this lt have "safe (butlast a @ [last a])" by (intro safe_snoc lt_not_special) simp_all
  ultimately show ?thesis using a by simp
qed

lemma safe_word: "\<forall>c \<in> set lang. is_word_char c \<Longrightarrow> safe lang"
  by (rule safe_plain_list) (auto simp: special_def dest: word_char_not_marker)

lemma ws_not_edge:
  assumes "is_white_space c"
  shows "c \<notin> set (map hd tokens)" "c \<notin> set (map last tokens)"
  using assms unfolding token_heads token_lasts
  by (auto simp: is_white_space_def is_line_terminator_def CH_def)

lemma safe_ltrim: "safe s \<Longrightarrow> safe (dropWhile is_white_space s)"
proof (induction s)
  case Nil
  then show ?case by simp
next
  case (Cons c s)
  show ?case
  proof (cases "is_white_space c")
    case True
    with Cons.prems have "safe s" using safe_strip1 ws_not_edge(1) by blast
    with Cons.IH True show ?thesis by simp
  next
    case False
    with Cons.prems show ?thesis by simp
  qed
qed

lemma safe_rtrim: "safe s \<Longrightarrow> safe (rev (dropWhile is_white_space (rev s)))"
proof (induction s rule: rev_induct)
  case Nil
  then show ?case by simp
next
  case (snoc c s)
  show ?case
  proof (cases "is_white_space c")
    case True
    with snoc.prems have "safe s" using safe_strip_last ws_not_edge(2) by blast
    with snoc.IH True show ?thesis by simp
  next
    case False
    with snoc.prems show ?thesis by simp
  qed
qed

lemma safe_trim: "safe s \<Longrightarrow> safe (trim s)"
  unfolding trim_def by (intro safe_rtrim safe_ltrim)

lemma safe_code_block:
  assumes "\<forall>c \<in> set lang. is_word_char c" and "safe code"
  shows "safe (code_block lang code)"
proof -
  have 1: \<open>str ''<pre><code class="language-'' = str ''<pre>'' @ str ''<code class="language-''\<close>
    and 2: "str ''</code></pre>'' = str ''</code>'' @ str ''</pre>''"
    by (simp_all add: str_def)
  have l: "safe lang" using assms(1) by (rule safe_word)
  have c: "safe (trim code)" using assms(2) by (rule safe_trim)
  have o: \<open>safe (str ''<pre>'' @ str ''<code class="language-'')\<close>
    by (intro safe_append safe_tag)
  have e: "safe (str ''</code>'' @ str ''</pre>'')"
    by (intro safe_append safe_tag)
  have q: \<open>safe (str ''">'')\<close> by (rule safe_tag)
  show ?thesis
    unfolding code_block_def 1 2 by (intro safe_append safe_tag l c)
qed

lemma backtick_sep: "\<forall>c \<in> set (str ''```''). c \<notin> set (concat tokens)"
  using sep_chars by (simp add: str_def)

lemma keeps_safe_fence: "keeps_safe match_fence"
  unfolding keeps_safe_def
proof (intro allI impI)
  fix a s prev r n
  assume s: "safe (a @ s)" and m: "match_fence prev s = Some (r, n)"
  from match_fence_shape [OF m] obtain lang code rest where
    eq: "s = str ''```'' @ lang @ 0x0A # code @ str ''```'' @ rest"
    and lang: "\<forall>c \<in> set lang. is_word_char c" and r: "r = code_block lang code"
    and n: "n = length (str ''```'' @ lang @ 0x0A # code @ str ''```'')" by blast
  have ne: "str ''```'' \<noteq> []" by (simp add: str_def)
  have nl: "(0x0A :: jschar) \<notin> set (concat tokens)"
    by (rule sep_chars) (simp add: is_line_terminator_def)
  from s have "safe (a @ str ''```'' @ (lang @ 0x0A # code @ str ''```'' @ rest))" unfolding eq .
  with safe_seps [OF ne backtick_sep] have 1: "safe a \<and> safe (lang @ 0x0A # code @ str ''```'' @ rest)" .
  have 2: "safe lang \<and> safe (code @ str ''```'' @ rest)" using 1 [THEN conjunct2] nl by (rule safe_sep)
  have 3: "safe code \<and> safe rest" using safe_seps [OF ne backtick_sep 2 [THEN conjunct2]] .
  have d: "drop n s = rest" unfolding eq n by simp
  have "0 < n" unfolding n by (simp add: str_def)
  moreover have "safe r" unfolding r using lang 3 by (intro safe_code_block) simp_all
  ultimately show "0 < n \<and> safe a \<and> safe r \<and> safe (drop n s)" using 1 3 d by simp
qed

lemma keeps_safe_delimited:
  assumes "d \<noteq> []" "\<forall>c \<in> set d. c \<notin> set (concat tokens)" "safe topen" "safe tclose"
  shows "keeps_safe (match_delimited d topen tclose)"
  unfolding keeps_safe_def
proof (intro allI impI)
  fix a s prev r n
  assume s: "safe (a @ s)" and m: "match_delimited d topen tclose prev s = Some (r, n)"
  from match_delimited_shape [OF m] obtain body rest where
    eq: "s = d @ body @ d @ rest" and r: "r = topen @ body @ tclose"
    and n: "n = length (d @ body @ d)" by blast
  from s have "safe (a @ d @ (body @ d @ rest))" unfolding eq .
  with safe_seps [OF assms(1,2)] have 1: "safe a \<and> safe (body @ d @ rest)" .
  have 2: "safe body \<and> safe rest" using safe_seps [OF assms(1,2) 1 [THEN conjunct2]] .
  have d: "drop n s = rest" unfolding eq n by simp
  have "0 < n" unfolding n using assms(1) by simp
  moreover have "safe r" unfolding r using 2 assms(3,4) by (intro safe_append) simp_all
  ultimately show "0 < n \<and> safe a \<and> safe r \<and> safe (drop n s)" using 1 2 d by simp
qed

lemma keeps_safe_line:
  assumes "mark \<noteq> []" "\<forall>c \<in> set mark. c \<notin> set (map hd tokens)"
    and "(\<exists>c \<in> set mark. special c) \<or> safe topen \<and> safe tclose"
  shows "keeps_safe (match_line mark topen tclose)"
  unfolding keeps_safe_def
proof (intro allI impI)
  fix a s prev r n
  assume s: "safe (a @ s)" and p: "a \<noteq> [] \<longrightarrow> prev = Some (last a)"
    and m: "match_line mark topen tclose prev s = Some (r, n)"
  from match_line_shape [OF m] obtain body rest where
    ls: "at_line_start prev" and eq: "s = mark @ body @ rest"
    and e: "rest = [] \<or> is_line_terminator (hd rest)" and r: "r = topen @ body @ tclose"
    and n: "n = length (mark @ body)" by blast
  from safe_at_line_start [OF s p ls] have 1: "safe a \<and> safe s" .
  then have "safe (mark @ (body @ rest))" unfolding eq by simp
  with safe_strip [OF assms(2)] have 2: "(\<forall>c \<in> set mark. \<not> special c) \<and> safe (body @ rest)" .
  have 3: "safe body \<and> safe rest" using 2 [THEN conjunct2] e by (rule safe_line_end)
  from 2 assms(3) have t: "safe topen" "safe tclose" by auto
  have d: "drop n s = rest" unfolding eq n by simp
  have "0 < n" unfolding n using assms(1) by simp
  moreover have "safe r" unfolding r using 3 t by (intro safe_append) simp_all
  ultimately show "0 < n \<and> safe a \<and> safe r \<and> safe (drop n s)" using 1 3 d by simp
qed

lemma digit_not_head: "is_digit c \<Longrightarrow> c \<notin> set (map hd tokens)"
  unfolding token_heads by (auto simp: is_digit_def CH_def)

lemma keeps_safe_ol: "keeps_safe match_ol"
  unfolding keeps_safe_def
proof (intro allI impI)
  fix a s prev r n
  assume s: "safe (a @ s)" and p: "a \<noteq> [] \<longrightarrow> prev = Some (last a)"
    and m: "match_ol prev s = Some (r, n)"
  from match_ol_shape [OF m] obtain digits body rest where
    ls: "at_line_start prev" and eq: "s = (digits @ str ''. '') @ body @ rest"
    and dg: "\<forall>c \<in> set digits. is_digit c"
    and e: "rest = [] \<or> is_line_terminator (hd rest)" and r: "r = str ''<li>'' @ body @ str ''</li>''"
    and n: "n = length ((digits @ str ''. '') @ body)" by blast
  have mk: "\<forall>c \<in> set (digits @ str ''. ''). c \<notin> set (map hd tokens)"
    using dg digit_not_head unfolding token_heads by (auto simp: str_def CH_def)
  from safe_at_line_start [OF s p ls] have 1: "safe a \<and> safe s" .
  then have "safe ((digits @ str ''. '') @ (body @ rest))" unfolding eq by simp
  with safe_strip [OF mk] have 2: "safe (body @ rest)" by blast
  have 3: "safe body \<and> safe rest" using 2 e by (rule safe_line_end)
  have d: "drop n s = rest" unfolding eq n by simp
  have "0 < n" unfolding n by (simp add: str_def)
  moreover have "safe r" unfolding r using 3 safe_tag by (intro safe_append) simp_all
  ultimately show "0 < n \<and> safe a \<and> safe r \<and> safe (drop n s)" using 1 3 d by simp
qed

lemma keeps_safe_link: "keeps_safe match_link"
  unfolding keeps_safe_def
proof (intro allI impI)
  fix a s prev r n
  assume s: "safe (a @ s)" and m: "match_link prev s = Some (r, n)"
  from match_link_shape [OF m] obtain label url rest where
    eq: "s = CH CHR ''['' # label @ CH CHR '']'' # CH CHR ''('' # url @ CH CHR '')'' # rest"
    and r: "r = anchor label url"
    and n: "n = length (CH CHR ''['' # label @ CH CHR '']'' # CH CHR ''('' # url @ [CH CHR '')''])"
    by blast
  have sep: "CH CHR ''['' \<notin> set (concat tokens)" "CH CHR '']'' \<notin> set (concat tokens)"
    "CH CHR ''('' \<notin> set (concat tokens)" "CH CHR '')'' \<notin> set (concat tokens)"
    by (rule sep_chars, simp add: str_def)+
  from s have "safe (a @ CH CHR ''['' # (label @ CH CHR '']'' # CH CHR ''('' # url @ CH CHR '')'' # rest))"
    unfolding eq .
  then have 1: "safe a \<and> safe (label @ CH CHR '']'' # CH CHR ''('' # url @ CH CHR '')'' # rest)"
    using sep(1) by (rule safe_sep)
  have 2: "safe label \<and> safe (CH CHR ''('' # url @ CH CHR '')'' # rest)"
    using 1 [THEN conjunct2] sep(2) by (rule safe_sep)
  from 2 have "safe ([] @ CH CHR ''('' # (url @ CH CHR '')'' # rest))" by simp
  then have 3: "safe [] \<and> safe (url @ CH CHR '')'' # rest)" using sep(3) by (rule safe_sep)
  have 4: "safe url \<and> safe rest" using 3 [THEN conjunct2] sep(4) by (rule safe_sep)
  define M where "M = CH CHR ''['' # label @ CH CHR '']'' # CH CHR ''('' # url @ [CH CHR '')'']"
  have sM: "s = M @ rest" unfolding eq M_def by simp
  have nM: "n = length M" unfolding n M_def ..
  have d: "drop n s = rest" unfolding sM nM by simp
  have "0 < n" unfolding n by simp
  moreover have "safe r" unfolding r anchor_def using 2 4 safe_tag by (intro safe_append) simp_all
  ultimately show "0 < n \<and> safe a \<and> safe r \<and> safe (drop n s)" using 1 4 d by simp
qed

lemma keeps_safe_ul: "keeps_safe match_ul"
  unfolding keeps_safe_def
proof (intro allI impI)
  fix a s prev r n
  assume s: "safe (a @ s)" and m: "match_ul prev s = Some (r, n)"
  from match_ul_shape [OF m] obtain mm rest where pre: "prefix (str ''<li>'') s"
    and eq: "s = mm @ rest" and n: "n = length mm" and ne: "mm \<noteq> []"
    and l: "last mm = CH CHR ''>'' \<or> last mm = 0x0A" and r: "r = str ''<ul>'' @ mm @ str ''</ul>''"
    by blast
  from pre obtain s' where s': "s = CH CHR ''<'' # s'" by (auto simp: prefix_def str_def)
  have sp: "special (CH CHR ''<'')" "special (CH CHR ''>'')" by (simp_all add: special_def)
  from s have "safe (a @ CH CHR ''<'' # s')" unfolding s' .
  from safe_head [OF this sp(1) token_tails(1)] s' have 1: "safe a \<and> safe s" by simp
  from ne have mm: "mm = butlast mm @ [last mm]" by simp
  have "s = butlast mm @ last mm # rest" using eq mm by (metis append.assoc append_Cons append_Nil)
  with 1 have 2: "safe (butlast mm @ last mm # rest)" by simp
  have 3: "safe mm \<and> safe rest"
  proof (cases "last mm = CH CHR ''>''")
    case True
    from 2 have "safe (butlast mm @ CH CHR ''>'' # rest)" unfolding True .
    from safe_last [OF this sp(2) token_inits] True mm show ?thesis by simp
  next
    case False
    with l have nl: "last mm = 0x0A" by simp
    have sep: "(0x0A :: jschar) \<notin> set (concat tokens)"
      by (rule sep_chars) (simp add: is_line_terminator_def)
    from 2 have "safe (butlast mm @ 0x0A # rest)" unfolding nl .
    then have "safe (butlast mm) \<and> safe rest" using sep by (rule safe_sep)
    moreover from this have "safe (butlast mm @ [0x0A])"
      by (intro safe_snoc) (simp_all add: special_def CH_def)
    ultimately show ?thesis using mm nl by simp
  qed
  have d: "drop n s = rest" unfolding eq n by simp
  have "0 < n" unfolding n using ne by simp
  moreover have "safe r" unfolding r using 3 safe_tag by (intro safe_append) simp_all
  ultimately show "0 < n \<and> safe a \<and> safe r \<and> safe (drop n s)" using 1 3 d by simp
qed

subsection \<open>The steps on safe texts\<close>

lemma safe_escape_html: "safe (escape_html s)"
proof (induction s)
  case Nil
  then show ?case by (simp add: escape_html_concat safe_Nil)
next
  case (Cons c s)
  have "safe (escape_char c)"
    unfolding escape_char_def
    by (auto simp: safe_tag special_def intro!: safe_plain safe_Nil)
  with Cons show ?case by (simp add: escape_html_concat safe_append)
qed

lemma safe_code_blocks: "safe s \<Longrightarrow> safe (code_blocks s)"
  unfolding code_blocks_def by (rule replace_safe [OF keeps_safe_fence])

lemma safe_inline_code: "safe s \<Longrightarrow> safe (inline_code s)"
  unfolding inline_code_def by (rule replace_safe [OF keeps_safe_inline_code])

lemma star_sep: "\<forall>c \<in> set (str ''**''). c \<notin> set (concat tokens)"
  "\<forall>c \<in> set (str ''*''). c \<notin> set (concat tokens)"
  using sep_chars by (simp_all add: str_def)

lemma safe_bold: "safe s \<Longrightarrow> safe (bold s)"
proof -
  have ne: "str ''**'' \<noteq> []" by (simp add: str_def)
  have "keeps_safe (match_delimited (str ''**'') (str ''<strong>'') (str ''</strong>''))"
    using ne star_sep(1) by (rule keeps_safe_delimited) (rule safe_tag)+
  then show "safe s \<Longrightarrow> safe (bold s)"
    unfolding bold_def match_bold_def by (rule replace_safe)
qed

lemma safe_italic: "safe s \<Longrightarrow> safe (italic s)"
proof -
  have ne: "str ''*'' \<noteq> []" by (simp add: str_def)
  have "keeps_safe (match_delimited (str ''*'') (str ''<em>'') (str ''</em>''))"
    using ne star_sep(2) by (rule keeps_safe_delimited) (rule safe_tag)+
  then show "safe s \<Longrightarrow> safe (italic s)"
    unfolding italic_def match_italic_def by (rule replace_safe)
qed

lemma mark_not_head:
  "\<forall>c \<in> set (str ''### ''). c \<notin> set (map hd tokens)"
  "\<forall>c \<in> set (str ''## ''). c \<notin> set (map hd tokens)"
  "\<forall>c \<in> set (str ''# ''). c \<notin> set (map hd tokens)"
  "\<forall>c \<in> set (str ''- ''). c \<notin> set (map hd tokens)"
  "\<forall>c \<in> set (str ''> ''). c \<notin> set (map hd tokens)"
  unfolding token_heads by (simp_all add: str_def CH_def)

lemma safe_headings: "safe s \<Longrightarrow> safe (headings s)"
  unfolding headings_def match_h1_def match_h2_def match_h3_def
  by (intro replace_safe keeps_safe_line mark_not_head disjI2 conjI safe_tag)
     (simp_all add: str_def)

lemma safe_links: "safe s \<Longrightarrow> safe (links s)"
  unfolding links_def by (rule replace_safe [OF keeps_safe_link])

lemma safe_unordered_lists: "safe s \<Longrightarrow> safe (unordered_lists s)"
  unfolding unordered_lists_def match_li_def
  by (intro replace_safe keeps_safe_ul keeps_safe_line mark_not_head disjI2 conjI safe_tag)
     (simp_all add: str_def)

lemma safe_ordered_lists: "safe s \<Longrightarrow> safe (ordered_lists s)"
  unfolding ordered_lists_def by (rule replace_safe [OF keeps_safe_ol])

lemma safe_blockquotes: "safe s \<Longrightarrow> safe (blockquotes s)"
  unfolding blockquotes_def match_blockquote_def
  by (intro replace_safe keeps_safe_line mark_not_head disjI1)
     (simp_all add: str_def special_def)

lemma safe_line_breaks: "safe s \<Longrightarrow> safe (line_breaks s)"
proof -
  have nl: "\<forall>c \<in> set [0x0A :: jschar]. c \<notin> set (concat tokens)"
    "\<forall>c \<in> set [0x0A, 0x0A :: jschar]. c \<notin> set (concat tokens)"
    using sep_chars [of "0x0A"] by (simp_all add: is_line_terminator_def)
  have p: "str ''</p><p>'' = str ''</p>'' @ str ''<p>''" by (simp add: str_def)
  have sp: "safe (str ''</p><p>'')" unfolding p by (intro safe_append safe_tag)
  have k2: "keeps_safe (match_lit [0x0A, 0x0A] (str ''</p><p>''))"
    by (rule keeps_safe_lit) (simp, rule nl(2), rule sp)
  have k1: "keeps_safe (match_lit [0x0A] (str ''<br>''))"
    by (rule keeps_safe_lit) (simp, rule nl(1), rule safe_tag)
  assume "safe s"
  then have "safe (replace (match_lit [0x0A, 0x0A] (str ''</p><p>'')) s)"
    by (rule replace_safe [OF k2])
  then show ?thesis
    unfolding line_breaks_def by (rule replace_safe [OF k1])
qed

lemma safe_wrap_paragraph: "safe s \<Longrightarrow> safe (wrap_paragraph s)"
  unfolding wrap_paragraph_def by (auto intro!: safe_append safe_tag)

lemma safe_renderMarkdown: "safe (renderMarkdown s)"
  unfolding renderMarkdown_def before_wrap_def
  by (intro safe_wrap_paragraph safe_line_breaks safe_blockquotes safe_ordered_lists
      safe_unordered_lists safe_links safe_headings safe_italic safe_bold safe_inline_code
      safe_code_blocks safe_escape_html)

lemma entity_edges:
  "t \<in> set entities \<Longrightarrow> hd t = CH CHR ''&'' \<and> last t = CH CHR '';''"
  by (auto simp: entities_def str_def)

lemma tag_heads: "t \<in> set tags \<Longrightarrow> hd t \<noteq> CH CHR ''&''"
proof -
  have "CH CHR ''&'' \<notin> set (map hd tags)" by (simp add: tags_def str_def CH_def)
  then show "t \<in> set tags \<Longrightarrow> hd t \<noteq> CH CHR ''&''" by (metis image_eqI set_map)
qed

lemma markup_of_safe:
  assumes "safe (a @ c # b)"
  shows "(c = CH CHR ''<'' \<longrightarrow> (\<exists>t \<in> set tags. prefix t (c # b))) \<and>
         (c = CH CHR ''>'' \<longrightarrow> (\<exists>t \<in> set tags. suffix t (a @ [c]))) \<and>
         (c = CH CHR ''&'' \<longrightarrow> (\<exists>e \<in> set entities. prefix e (c # b)))"
proof (intro conjI impI)
  assume c: "c = CH CHR ''<''"
  then have "special c" "c \<notin> set (concat (map tl tokens))"
    using token_tails by (simp_all add: special_def)
  from safe_head [OF assms this] obtain t where t: "t \<in> set tokens" "prefix t (c # b)" by blast
  from t(1) have "t \<noteq> []" by (rule token_nonempty)
  with t(2) have "hd t = c" by (cases t) auto
  with c t(1) have "t \<in> set tags" using entity_edges [of t] by (auto simp: tokens_def CH_def)
  with t(2) show "\<exists>t \<in> set tags. prefix t (c # b)" ..
next
  assume c: "c = CH CHR ''&''"
  then have "special c" "c \<notin> set (concat (map tl tokens))"
    using token_tails by (simp_all add: special_def)
  from safe_head [OF assms this] obtain t where t: "t \<in> set tokens" "prefix t (c # b)" by blast
  from t(1) have "t \<noteq> []" by (rule token_nonempty)
  with t(2) have "hd t = c" by (cases t) auto
  with c t(1) have "t \<in> set entities" using tag_heads [of t] by (auto simp: tokens_def)
  with t(2) show "\<exists>e \<in> set entities. prefix e (c # b)" ..
next
  assume c: "c = CH CHR ''>''"
  then have "special c" "c \<notin> set (concat (map butlast tokens))"
    using token_inits by (simp_all add: special_def)
  from safe_last [OF assms this] obtain t where t: "t \<in> set tokens" "suffix t (a @ [c])" by blast
  from t(1) have "t \<noteq> []" by (rule token_nonempty)
  with t(2) have "last t = c" by (auto simp: suffix_def) (metis last_appendR last_snoc)
  with c t(1) have "t \<in> set tags" using entity_edges [of t] by (auto simp: tokens_def CH_def)
  with t(2) show "\<exists>t \<in> set tags. suffix t (a @ [c])" ..
qed

lemma no_foreign_tag:
  assumes "\<And>b. \<not> (\<exists>t \<in> set tags. prefix t (CH CHR ''<'' # x @ b))"
  shows "\<not> sublist (CH CHR ''<'' # x) (renderMarkdown s)"
proof
  assume "sublist (CH CHR ''<'' # x) (renderMarkdown s)"
  then obtain a b where eq: "renderMarkdown s = a @ CH CHR ''<'' # (x @ b)"
    by (auto simp: sublist_def)
  have "safe (a @ CH CHR ''<'' # (x @ b))" using safe_renderMarkdown [of s] unfolding eq .
  from markup_of_safe [OF this] have "\<exists>t \<in> set tags. prefix t (CH CHR ''<'' # x @ b)" by simp
  with assms show False by blast
qed

lemma no_script_tag: "\<not> sublist (str ''<script'') (renderMarkdown s)"
proof -
  have "\<not> (\<exists>t \<in> set tags. prefix t (CH CHR ''<'' # str ''script'' @ b))" for b
    by (simp add: tags_def str_def CH_def)
  from no_foreign_tag [OF this] show ?thesis by (simp add: str_def)
qed

lemma no_blockquote_tag: "\<not> sublist (str ''<blockquote>'') (renderMarkdown s)"
proof -
  have "\<not> (\<exists>t \<in> set tags. prefix t (CH CHR ''<'' # str ''blockquote>'' @ b))" for b
    by (simp add: tags_def str_def CH_def)
  from no_foreign_tag [OF this] show ?thesis by (simp add: str_def)
qed


lemma escape_html_no_angle:
  "CH CHR ''<'' \<notin> set (escape_html s) \<and> CH CHR ''>'' \<notin> set (escape_html s)"
  by (induction s) (auto simp: escape_html_concat escape_char_def str_def CH_def)

section \<open>Escaping\<close>

text \<open>
  C1. The escape step replaces every \<open>&\<close>, \<open><\<close> and \<open>>\<close> of the input, each once (an
  ampersand written for \<open><\<close> or \<open>>\<close> is not escaped again), and it is the first step,
  so that the text the tag-producing steps receive has no \<open><\<close> and no \<open>>\<close>. In the
  result of \<open>renderMarkdown\<close>, for every input, every \<open><\<close> begins and every \<open>>\<close> ends
  a piece of markup that the renderer writes, and every \<open>&\<close> begins one of the three
  entities of the escape step; no result contains \<open><script\<close>, and the input
  \<open><script>alert(1)</script>\<close> comes out as escaped text in a paragraph.
\<close>

theorem escaped_before_markup:
  "escape_html s = concat (map escape_char s)
   \<and> CH CHR ''<'' \<notin> set (escape_html s) \<and> CH CHR ''>'' \<notin> set (escape_html s)
   \<and> (\<forall>a c b. renderMarkdown s = a @ c # b \<longrightarrow>
         (c = CH CHR ''<'' \<longrightarrow> (\<exists>t \<in> set tags. prefix t (c # b))) \<and>
         (c = CH CHR ''>'' \<longrightarrow> (\<exists>t \<in> set tags. suffix t (a @ [c]))) \<and>
         (c = CH CHR ''&'' \<longrightarrow> (\<exists>e \<in> set entities. prefix e (c # b))))
   \<and> \<not> sublist (str ''<script'') (renderMarkdown s)
   \<and> renderMarkdown (str ''<script>alert(1)</script>'')
       = str ''<p>&lt;script&gt;alert(1)&lt;/script&gt;</p>''"
proof -
  have 1: "\<forall>a c b. renderMarkdown s = a @ c # b \<longrightarrow>
         (c = CH CHR ''<'' \<longrightarrow> (\<exists>t \<in> set tags. prefix t (c # b))) \<and>
         (c = CH CHR ''>'' \<longrightarrow> (\<exists>t \<in> set tags. suffix t (a @ [c]))) \<and>
         (c = CH CHR ''&'' \<longrightarrow> (\<exists>e \<in> set entities. prefix e (c # b)))"
  proof (intro allI impI)
    fix a c b assume eq: "renderMarkdown s = a @ c # b"
    have "safe (a @ c # b)" using safe_renderMarkdown [of s] unfolding eq .
    then show "(c = CH CHR ''<'' \<longrightarrow> (\<exists>t \<in> set tags. prefix t (c # b))) \<and>
         (c = CH CHR ''>'' \<longrightarrow> (\<exists>t \<in> set tags. suffix t (a @ [c]))) \<and>
         (c = CH CHR ''&'' \<longrightarrow> (\<exists>e \<in> set entities. prefix e (c # b)))"
      by (rule markup_of_safe)
  qed
  have 2: "renderMarkdown (str ''<script>alert(1)</script>'')
       = str ''<p>&lt;script&gt;alert(1)&lt;/script&gt;</p>''"
    by (simp add: render_defs)
  from escape_html_concat [of s] escape_html_no_angle [of s] 1 no_script_tag [of s] 2
  show ?thesis by (intro conjI) simp_all
qed

theorem escaped_before_markup_witness:
  "renderMarkdown (str ''a<b'') = str ''<p>a'' @ CH CHR ''&'' # str ''lt;b</p>''
   \<and> (\<exists>e \<in> set entities. prefix e (CH CHR ''&'' # str ''lt;b</p>''))"
proof -
  have eq: "renderMarkdown (str ''a<b'') = str ''<p>a'' @ CH CHR ''&'' # str ''lt;b</p>''"
    by (simp add: render_defs)
  from escaped_before_markup [of "str ''a<b''"]
  have "\<forall>a c b. renderMarkdown (str ''a<b'') = a @ c # b \<longrightarrow>
         (c = CH CHR ''<'' \<longrightarrow> (\<exists>t \<in> set tags. prefix t (c # b))) \<and>
         (c = CH CHR ''>'' \<longrightarrow> (\<exists>t \<in> set tags. suffix t (a @ [c]))) \<and>
         (c = CH CHR ''&'' \<longrightarrow> (\<exists>e \<in> set entities. prefix e (c # b)))"
    by (elim conjE)
  from this [rule_format, OF eq, THEN conjunct2, THEN conjunct2] eq
  show ?thesis by simp
qed

section \<open>Fenced code blocks and the later steps\<close>







section \<open>Lists\<close>





section \<open>Block quotes\<close>

text \<open>
  C4. A line that begins with \<open>> \<close> should become a blockquote element. On the input
  \<open>> hi\<close> the renderer emits no blockquote: the escape step has already turned the
  \<open>>\<close> into \<open>&gt;\<close> when the blockquote expression runs, and the line comes out as
  escaped text in a paragraph. No input at all gives a blockquote element.
\<close>

theorem blockquote_not_emitted:
  "renderMarkdown (str ''> hi'') = str ''<p>&gt; hi</p>''
   \<and> \<not> sublist (str ''<blockquote>'') (renderMarkdown s)"
proof -
  have "renderMarkdown (str ''> hi'') = str ''<p>&gt; hi</p>''"
    by (simp add: render_defs)
  with no_blockquote_tag [of s] show ?thesis by simp
qed

section \<open>Links\<close>



section \<open>Unclosed fences\<close>



section \<open>Totality\<close>


section \<open>Wrapping\<close>



end
